theory Spec2Isabelle
  imports Main
begin

section \<open>Schema model (core/schema.py)\<close>

text \<open>
  A node identity is the Python class of the node; it is a type parameter \<open>'n\<close> here.
  \<open>NodeConfig\<close> and \<open>WorkflowSchema\<close> are the pydantic models of the source with
  their fields and defaults. The \<open>event_schema\<close> of a schema is the parser that
  \<open>Workflow.__run\<close> applies to the raw event; it is a parameter of the engine below.
\<close>

record 'n NodeConfig =
  node :: 'n
  connections :: "'n list"
  is_router :: bool
  description :: "string option"
  concurrent_nodes :: "'n list option"

record 'n WorkflowSchema =
  wf_description :: "string option"
  start :: 'n
  nodes :: "'n NodeConfig list"

text \<open>\<open>NodeConfig(node=n)\<close>: every other field takes its default.\<close>

definition NodeConfig_default :: "'n \<Rightarrow> 'n NodeConfig" where
  "NodeConfig_default n =
     \<lparr>node = n, connections = [], is_router = False, description = None,
      concurrent_nodes = Some []\<rparr>"

section \<open>Task context (core/task.py)\<close>

text \<open>
  \<open>TaskContext.nodes\<close> is a dictionary from node names to result records, each record
  a dictionary from field names to values (the keyword arguments of \<open>update_node\<close>);
  \<open>metadata\<close> is a dictionary from strings to values of a type \<open>'m\<close>.
  Dictionaries are maps: the order of insertion plays no part in any operation below.
\<close>

record ('e, 'm, 'v) TaskContext =
  event :: 'e
  tc_nodes :: "string \<rightharpoonup> (string \<rightharpoonup> 'v)"
  metadata :: "string \<rightharpoonup> 'm"
  should_stop :: bool

text \<open>
  \<open>self.nodes[node_name] = {**self.nodes.get(node_name, {}), **kwargs}\<close>:
  in a dictionary display the later unpacking wins, which is \<open>++\<close> on maps.
\<close>

definition update_node ::
  "('e, 'm, 'v) TaskContext \<Rightarrow> string \<Rightarrow> (string \<rightharpoonup> 'v) \<Rightarrow> ('e, 'm, 'v) TaskContext" where
  "update_node self node_name kwargs =
     self\<lparr>tc_nodes := (tc_nodes self)(node_name \<mapsto>
        (case tc_nodes self node_name of None \<Rightarrow> Map.empty | Some r \<Rightarrow> r) ++ kwargs)\<rparr>"

definition stop_workflow :: "('e, 'm, 'v) TaskContext \<Rightarrow> ('e, 'm, 'v) TaskContext" where
  "stop_workflow self = self\<lparr>should_stop := True\<rparr>"

section \<open>Routers (core/nodes/router.py)\<close>

text \<open>
  A routing rule is a \<open>RouterNode\<close>: its \<open>determine_next_node(task_context)\<close> gives a
  node or \<open>None\<close>; the engine keeps only the class of that node, so a rule is a
  function from the context to an optional node identity. Rules are read as pure
  functions of the context. \<open>BaseRouter.route\<close> walks \<open>self.routes\<close> in order and
  returns the first result that is not \<open>None\<close>, else \<open>self.fallback\<close> (or \<open>None\<close>).
\<close>

fun route :: "('c \<Rightarrow> 'n option) list \<Rightarrow> 'n option \<Rightarrow> 'c \<Rightarrow> 'n option" where
  "route [] fallback task_context = fallback"
| "route (route_node # routes) fallback task_context =
     (case route_node task_context of
        Some next_node \<Rightarrow> Some next_node
      | None \<Rightarrow> route routes fallback task_context)"

section \<open>Engine (core/workflow.py)\<close>

text \<open>
  What the engine needs to know of the Python class behind a node identity:
  whether it is a subclass of \<open>BaseRouter\<close>, its \<open>process\<close> coroutine, and its
  \<open>route\<close> method when it has one (a subclass of \<open>BaseRouter\<close> inherits \<open>route\<close> above).
  \<open>process\<close> receives the mutable context and either returns a context or raises an
  exception \<open>e\<close>, leaving the context as it was at that moment: \<open>Inl (e, c)\<close>.
\<close>

record ('n, 'c, 'x) NodeClass =
  is_BaseRouter :: bool
  process :: "'c \<Rightarrow> ('x \<times> 'c) + 'c"
  route_method :: "('c \<Rightarrow> 'n option) option"

text \<open>A subclass of \<open>BaseRouter\<close> with the given rules and fallback.\<close>

definition BaseRouter ::
  "('c \<Rightarrow> 'n option) list \<Rightarrow> 'n option \<Rightarrow> ('c \<Rightarrow> ('x \<times> 'c) + 'c) \<Rightarrow> ('n, 'c, 'x) NodeClass" where
  "BaseRouter routes fallback proc =
     \<lparr>is_BaseRouter = True, process = proc, route_method = Some (route routes fallback)\<rparr>"

text \<open>
  The values of \<open>metadata\<close>: the engine's map from node identities to their
  configurations, stored under the key \<open>''nodes''\<close>, or anything else.
\<close>

datatype ('n, 'a) meta = NodesMap "'n \<rightharpoonup> 'n NodeConfig" | Meta 'a

type_synonym ('n, 'e, 'a, 'v) ctx = "('e, ('n, 'a) meta, 'v) TaskContext"

text \<open>
  Exceptions: those the engine's own dictionary and attribute accesses raise, and the
  exceptions \<open>Exn e\<close> of foreign code (a node's \<open>process\<close>, the event parser).
\<close>

datatype 'x error = KeyError | AttributeError | TypeError | Exn 'x

text \<open>
  What a run does besides computing its result: the three logging calls of
  \<open>node_context\<close>, the logging call of the stop branch, and the calls into node code
  (\<open>process\<close> and \<open>route\<close>, each with the context it receives).
\<close>

datatype ('n, 'c, 'x) action =
    Starting 'n
  | ErrorIn 'n 'x
  | Finished 'n
  | Stopping
  | Process 'n 'c
  | Route 'n 'c

record 'n Workflow =
  workflow_schema :: "'n WorkflowSchema"
  wf_nodes :: "'n \<rightharpoonup> 'n NodeConfig"

text \<open>\<open>Workflow._initialize_nodes\<close>: two nested loops over the schema.\<close>

definition initialize_nodes :: "'n WorkflowSchema \<Rightarrow> ('n \<rightharpoonup> 'n NodeConfig)" where
  "initialize_nodes schema =
     foldl (\<lambda>nodes node_config.
        foldl (\<lambda>nodes connected_node.
                 (case nodes connected_node of
                    None \<Rightarrow> nodes(connected_node \<mapsto> NodeConfig_default connected_node)
                  | Some _ \<Rightarrow> nodes))
              (nodes(node node_config \<mapsto> node_config))
              (connections node_config))
       Map.empty (nodes schema)"

text \<open>
  \<open>with self.node_context(name): body\<close>. The body is given by what it did and how it
  ended; an exception is logged and raised again, and the \<open>finally\<close> clause logs on
  both paths.
\<close>

definition node_context ::
  "'n \<Rightarrow> ('n, 'c, 'x) action list \<times> (('x \<times> 'c) + 'c)
      \<Rightarrow> ('n, 'c, 'x) action list \<times> (('x \<times> 'c) + 'c)" where
  "node_context node_name body =
     (case body of
        (acts, Inl (e, c)) \<Rightarrow>
          ([Starting node_name] @ acts @ [ErrorIn node_name e, Finished node_name], Inl (e, c))
      | (acts, Inr c) \<Rightarrow>
          ([Starting node_name] @ acts @ [Finished node_name], Inr c))"

text \<open>\<open>Workflow._handle_router\<close>: \<open>router.route(task_context)\<close>, then the class of the result.\<close>

definition handle_router ::
  "'n \<Rightarrow> ('n, 'c, 'x) NodeClass \<Rightarrow> 'c
     \<Rightarrow> ('n, 'c, 'x) action list \<times> ('x error + 'n option)" where
  "handle_router n router task_context =
     (case route_method router of
        None \<Rightarrow> ([Route n task_context], Inl AttributeError)
      | Some r \<Rightarrow> ([Route n task_context], Inr (r task_context)))"

text \<open>
  \<open>Workflow._get_next_node_class\<close>. The configuration is the first one of the schema's
  list for the current class; \<open>self.nodes[current_node_class]\<close> raises \<open>KeyError\<close> on a
  missing key.
\<close>

definition get_next_node_class ::
  "'n Workflow \<Rightarrow> ('n \<Rightarrow> ('n, 'c, 'x) NodeClass) \<Rightarrow> 'n \<Rightarrow> 'c
     \<Rightarrow> ('n, 'c, 'x) action list \<times> ('x error + 'n option)" where
  "get_next_node_class self cls current_node_class task_context =
     (case find (\<lambda>nc. node nc = current_node_class) (nodes (workflow_schema self)) of
        None \<Rightarrow> ([], Inr None)
      | Some node_config \<Rightarrow>
          (case connections node_config of
             [] \<Rightarrow> ([], Inr None)
           | first # _ \<Rightarrow>
               if is_router node_config then
                 (case wf_nodes self current_node_class of
                    None \<Rightarrow> ([], Inl KeyError)
                  | Some cfg \<Rightarrow> handle_router (node cfg) (cls (node cfg)) task_context)
               else ([], Inr (Some first))))"

text \<open>
  One pass through the body of the \<open>while\<close> loop of \<open>Workflow.__run\<close>, after the test
  of the stop flag: look the node up, run \<open>process\<close> inside \<open>node_context\<close> unless the
  class is a subclass of \<open>BaseRouter\<close>, then ask for the next class. The result is the
  exception with the context at that moment, or the context and the next class.
\<close>

definition run_step ::
  "'n Workflow \<Rightarrow> ('n \<Rightarrow> ('n, 'c, 'x) NodeClass) \<Rightarrow> 'n \<Rightarrow> 'c
     \<Rightarrow> ('n, 'c, 'x) action list \<times> (('x error \<times> 'c) + ('c \<times> 'n option))" where
  "run_step self cls current_node_class task_context =
     (case wf_nodes self current_node_class of
        None \<Rightarrow> ([], Inl (KeyError, task_context))
      | Some cfg \<Rightarrow>
          (let current_node = node cfg in
           (case node_context current_node_class
                   (if \<not> is_BaseRouter (cls current_node)
                    then ([Process current_node task_context],
                          process (cls current_node) task_context)
                    else ([], Inr task_context)) of
              (acts, Inl (e, c)) \<Rightarrow> (acts, Inl (Exn e, c))
            | (acts, Inr c) \<Rightarrow>
                (case get_next_node_class self cls current_node_class c of
                   (acts', Inl err) \<Rightarrow> (acts @ acts', Inl (err, c))
                 | (acts', Inr next_class) \<Rightarrow> (acts @ acts', Inr (c, next_class))))))"

text \<open>
  The \<open>while current_node_class:\<close> loop. A router may name any class as the next one,
  so the loop need not end: it is defined with fuel, one unit per test of the loop
  condition, and \<open>None\<close> means that the fuel ran out. The accumulated actions are
  threaded through.
\<close>

fun run_loop ::
  "nat \<Rightarrow> 'n Workflow \<Rightarrow> ('n \<Rightarrow> ('n, ('n, 'e, 'a, 'v) ctx, 'x) NodeClass) \<Rightarrow> 'n option
     \<Rightarrow> ('n, 'e, 'a, 'v) ctx \<Rightarrow> ('n, ('n, 'e, 'a, 'v) ctx, 'x) action list
     \<Rightarrow> (('n, ('n, 'e, 'a, 'v) ctx, 'x) action list
          \<times> (('x error \<times> ('n, 'e, 'a, 'v) ctx) + ('n, 'e, 'a, 'v) ctx)) option" where
  "run_loop 0 self cls current task_context acts = None"
| "run_loop (Suc fuel) self cls None task_context acts = Some (acts, Inr task_context)"
| "run_loop (Suc fuel) self cls (Some current_node_class) task_context acts =
     (if should_stop task_context then Some (acts @ [Stopping], Inr task_context)
      else (case run_step self cls current_node_class task_context of
              (acts', Inl (err, c)) \<Rightarrow> Some (acts @ acts', Inl (err, c))
            | (acts', Inr (c, next_class)) \<Rightarrow>
                run_loop fuel self cls next_class c (acts @ acts')))"

text \<open>
  \<open>Workflow.__run\<close> (behind \<open>run\<close> and \<open>run_async\<close>): build the context, parse the
  event with the schema's \<open>event_schema\<close>, store \<open>self.nodes\<close> in the metadata, run the
  loop from the start class, pop the entry (\<open>dict.pop\<close> without a default raises
  \<open>KeyError\<close> on a missing key) and return the context. An exception leaves \<open>run\<close>
  with the context of that moment, when there is one with a parsed event.
\<close>

definition run ::
  "nat \<Rightarrow> 'n Workflow \<Rightarrow> ('r \<Rightarrow> 'x + 'e) \<Rightarrow> ('n \<Rightarrow> ('n, ('n, 'e, 'a, 'v) ctx, 'x) NodeClass) \<Rightarrow> 'r
     \<Rightarrow> (('n, ('n, 'e, 'a, 'v) ctx, 'x) action list
          \<times> (('x error \<times> ('n, 'e, 'a, 'v) ctx option) + ('n, 'e, 'a, 'v) ctx)) option" where
  "run fuel self event_schema cls raw_event =
     (case event_schema raw_event of
        Inl e \<Rightarrow> Some ([], Inl (Exn e, None))
      | Inr ev \<Rightarrow>
          (case run_loop fuel self cls (Some (start (workflow_schema self)))
                  \<lparr>event = ev, tc_nodes = Map.empty,
                   metadata = [''nodes'' \<mapsto> NodesMap (wf_nodes self)],
                   should_stop = False\<rparr> [] of
             None \<Rightarrow> None
           | Some (acts, Inl (err, c)) \<Rightarrow> Some (acts, Inl (err, Some c))
           | Some (acts, Inr c) \<Rightarrow>
               (case metadata c ''nodes'' of
                  None \<Rightarrow> Some (acts, Inl (KeyError, Some c))
                | Some _ \<Rightarrow> Some (acts, Inr (c\<lparr>metadata := (metadata c)(''nodes'' := None)\<rparr>)))))"

text \<open>The classes a run entered, in order: one \<open>Starting\<close> entry per node execution.\<close>

fun visited :: "('n, 'c, 'x) action list \<Rightarrow> 'n list" where
  "visited [] = []"
| "visited (Starting n # acts) = n # visited acts"
| "visited (_ # acts) = visited acts"

section \<open>A worked workflow: the routing scenario\<close>

definition task ::
  "('c \<Rightarrow> ('x \<times> 'c) + 'c) \<Rightarrow> ('n, 'c, 'x) NodeClass" where
  "task proc = \<lparr>is_BaseRouter = False, process = proc, route_method = None\<rparr>"

datatype scenario_node = NodeA | RouterR | NodeB | NodeC

definition scenario_schema :: "scenario_node WorkflowSchema" where
  "scenario_schema =
     \<lparr>wf_description = None, start = NodeA,
      nodes = [\<lparr>node = NodeA, connections = [RouterR], is_router = False, description = None,
                concurrent_nodes = Some []\<rparr>,
               \<lparr>node = RouterR, connections = [NodeB, NodeC], is_router = True, description = None,
                concurrent_nodes = Some []\<rparr>,
               \<lparr>node = NodeB, connections = [], is_router = False, description = None,
                concurrent_nodes = Some []\<rparr>,
               \<lparr>node = NodeC, connections = [], is_router = False, description = None,
                concurrent_nodes = Some []\<rparr>]\<rparr>"

definition scenario_workflow :: "scenario_node Workflow" where
  "scenario_workflow =
     \<lparr>workflow_schema = scenario_schema, wf_nodes = initialize_nodes scenario_schema\<rparr>"

definition scenario_classes ::
  "scenario_node \<Rightarrow> (scenario_node, (scenario_node, string, unit, bool) ctx, string) NodeClass" where
  "scenario_classes n =
     (case n of
        NodeA \<Rightarrow>
          task (\<lambda>c. if event c = ''stop'' then Inr (stop_workflow (update_node c ''A'' [''seen'' \<mapsto> True]))
                    else if event c = ''raise'' then Inl (''boom'', update_node c ''A'' [''seen'' \<mapsto> True])
                    else Inr (update_node c ''A'' [''seen'' \<mapsto> True]))
      | RouterR \<Rightarrow>
          BaseRouter [\<lambda>c. if event c = ''flag'' then Some NodeB else None] (Some NodeC)
            (\<lambda>c. Inl (''unused'', c))
      | NodeB \<Rightarrow> task (\<lambda>c. Inr (update_node c ''B'' [''seen'' \<mapsto> True]))
      | NodeC \<Rightarrow> task (\<lambda>c. Inr (update_node c ''C'' [''seen'' \<mapsto> True])))"

definition scenario_context :: "string \<Rightarrow> (scenario_node, string, unit, bool) ctx" where
  "scenario_context ev =
     \<lparr>event = ev, tc_nodes = Map.empty,
      metadata = [''nodes'' \<mapsto> NodesMap (wf_nodes scenario_workflow)], should_stop = False\<rparr>"



section \<open>Properties of the task context\<close>



section \<open>The engine loop: accumulator and fuel\<close>


lemma run_loop_acc:
  "run_loop fuel W cls cur c acts =
     map_option (\<lambda>(tr, res). (acts @ tr, res)) (run_loop fuel W cls cur c [])"
proof (induction fuel arbitrary: cur c acts)
  case 0
  then show ?case by simp
next
  case (Suc fuel)
  show ?case
  proof (cases cur)
    case None
    then show ?thesis by simp
  next
    case (Some n)
    show ?thesis
    proof (cases "should_stop c")
      case True
      with Some show ?thesis by simp
    next
      case False
      obtain a r where st: "run_step W cls n c = (a, r)" by (cases "run_step W cls n c")
      show ?thesis
      proof (cases r)
        case (Inl p)
        with st Some False show ?thesis by (cases p) simp
      next
        case (Inr p)
        obtain c1 nxt where p: "p = (c1, nxt)" by (cases p)
        have "run_loop fuel W cls nxt c1 (acts @ a) =
                map_option (\<lambda>(tr, res). ((acts @ a) @ tr, res)) (run_loop fuel W cls nxt c1 [])"
          by (rule Suc.IH)
        moreover have "run_loop fuel W cls nxt c1 ([] @ a) =
                map_option (\<lambda>(tr, res). (([] @ a) @ tr, res)) (run_loop fuel W cls nxt c1 [])"
          by (rule Suc.IH)
        ultimately show ?thesis using st Some False Inr p
          by (cases "run_loop fuel W cls nxt c1 []") (auto simp: option.map_comp)
      qed
    qed
  qed
qed


section \<open>One pass of the loop\<close>

lemma get_next_node_class_actions:
  "get_next_node_class W cls n c = (a, r) \<Longrightarrow> a = [] \<or> (\<exists>m. a = [Route m c])"
  by (auto simp: get_next_node_class_def handle_router_def
           split: option.splits list.splits if_splits)

lemma run_step_missing:
  "wf_nodes W n = None \<Longrightarrow> run_step W cls n c = ([], Inl (KeyError, c))"
  by (simp add: run_step_def)

lemma run_step_router:
  "wf_nodes W n = Some cfg \<Longrightarrow> is_BaseRouter (cls (node cfg)) \<Longrightarrow>
   get_next_node_class W cls n c = (a2, r2) \<Longrightarrow>
   run_step W cls n c =
     ([Starting n, Finished n] @ a2,
      case r2 of Inl err \<Rightarrow> Inl (err, c) | Inr nxt \<Rightarrow> Inr (c, nxt))"
  by (simp add: run_step_def node_context_def split: sum.splits)

lemma run_step_raised:
  "wf_nodes W n = Some cfg \<Longrightarrow> \<not> is_BaseRouter (cls (node cfg)) \<Longrightarrow>
   process (cls (node cfg)) c = Inl (e, c') \<Longrightarrow>
   run_step W cls n c =
     ([Starting n, Process (node cfg) c, ErrorIn n e, Finished n], Inl (Exn e, c'))"
  by (simp add: run_step_def node_context_def)

lemma run_step_returned:
  "wf_nodes W n = Some cfg \<Longrightarrow> \<not> is_BaseRouter (cls (node cfg)) \<Longrightarrow>
   process (cls (node cfg)) c = Inr c' \<Longrightarrow>
   get_next_node_class W cls n c' = (a2, r2) \<Longrightarrow>
   run_step W cls n c =
     ([Starting n, Process (node cfg) c, Finished n] @ a2,
      case r2 of Inl err \<Rightarrow> Inl (err, c') | Inr nxt \<Rightarrow> Inr (c', nxt))"
  by (simp add: run_step_def node_context_def split: sum.splits)

lemma run_step_after_process:
  assumes st: "run_step W cls n c = (a, r)"
    and a: "a = pre @ Process m c0 # us"
  shows "pre = [Starting n] \<and> c0 = c \<and> \<not> is_BaseRouter (cls m)
       \<and> (\<exists>cfg. wf_nodes W n = Some cfg \<and> node cfg = m)
       \<and> (case process (cls m) c of
             Inl (e, c') \<Rightarrow> us = [ErrorIn n e, Finished n] \<and> r = Inl (Exn e, c')
           | Inr c' \<Rightarrow> (\<exists>a2 r2. get_next_node_class W cls n c' = (a2, r2)
                 \<and> us = Finished n # a2
                 \<and> r = (case r2 of Inl err \<Rightarrow> Inl (err, c') | Inr nxt \<Rightarrow> Inr (c', nxt))))"
proof (cases "wf_nodes W n")
  case None
  from run_step_missing [OF None, of cls c] st a show ?thesis by simp
next
  case (Some cfg)
  show ?thesis
  proof (cases "is_BaseRouter (cls (node cfg))")
    case True
    obtain a2 r2 where g: "get_next_node_class W cls n c = (a2, r2)"
      by (cases "get_next_node_class W cls n c")
    from get_next_node_class_actions [OF g] have "a2 = [] \<or> (\<exists>m. a2 = [Route m c])" .
    moreover from run_step_router [where cls=cls and cfg=cfg, OF Some True g] st
    have "a = [Starting n, Finished n] @ a2" by simp
    ultimately have "Process m c0 \<notin> set a" by auto
    with a show ?thesis by simp
  next
    case False
    show ?thesis
    proof (cases "process (cls (node cfg)) c")
      case (Inl p)
      obtain e c' where p: "p = (e, c')" by (cases p)
      from run_step_raised [where cls=cls and cfg=cfg, OF Some False Inl [unfolded p]] st
      have "a = [Starting n, Process (node cfg) c, ErrorIn n e, Finished n]"
        and "r = Inl (Exn e, c')" by simp_all
      with a Some False Inl p show ?thesis
        by (auto simp: Cons_eq_append_conv)
    next
      case (Inr c')
      obtain a2 r2 where g: "get_next_node_class W cls n c' = (a2, r2)"
        by (cases "get_next_node_class W cls n c'")
      from get_next_node_class_actions [OF g] have a2: "a2 = [] \<or> (\<exists>m. a2 = [Route m c'])" .
      from run_step_returned [where cls=cls and cfg=cfg, OF Some False Inr g] st
      have "a = [Starting n, Process (node cfg) c, Finished n] @ a2"
        and "r = (case r2 of Inl err \<Rightarrow> Inl (err, c') | Inr nxt \<Rightarrow> Inr (c', nxt))" by simp_all
      with a a2 Some False Inr g show ?thesis
        by (auto simp: Cons_eq_append_conv)
    qed
  qed
qed

lemma run_step_after_process_returned:
  assumes st: "run_step W cls n c = (a, r)"
    and a: "a = pre @ Process m c0 # us"
    and pr: "process (cls m) c0 = Inr c'"
  shows "pre = [Starting n] \<and> c0 = c
       \<and> (\<exists>a2. us = Finished n # a2 \<and> (a2 = [] \<or> (\<exists>k. a2 = [Route k c'])))
       \<and> ((\<exists>err. r = Inl (err, c')) \<or> (\<exists>nxt. r = Inr (c', nxt)))"
proof -
  from run_step_after_process [OF st a]
  have pre: "pre = [Starting n]" and c0: "c0 = c"
    and rest: "case process (cls m) c of
             Inl (e, c') \<Rightarrow> us = [ErrorIn n e, Finished n] \<and> r = Inl (Exn e, c')
           | Inr c' \<Rightarrow> (\<exists>a2 r2. get_next_node_class W cls n c' = (a2, r2)
                 \<and> us = Finished n # a2
                 \<and> r = (case r2 of Inl err \<Rightarrow> Inl (err, c') | Inr nxt \<Rightarrow> Inr (c', nxt)))"
    by simp_all
  from rest pr c0 obtain a2 r2 where g: "get_next_node_class W cls n c' = (a2, r2)"
    and us: "us = Finished n # a2"
    and r: "r = (case r2 of Inl err \<Rightarrow> Inl (err, c') | Inr nxt \<Rightarrow> Inr (c', nxt))"
    by auto
  from get_next_node_class_actions [OF g] have "a2 = [] \<or> (\<exists>k. a2 = [Route k c'])" .
  moreover from r have "(\<exists>err. r = Inl (err, c')) \<or> (\<exists>nxt. r = Inr (c', nxt))"
    by (cases r2) simp_all
  ultimately show ?thesis using pre c0 us by simp
qed


section \<open>What follows a call of process in a run\<close>

lemma append_eq_append_mid:
  "pre @ x # post = a @ rest \<Longrightarrow>
   (\<exists>us. pre = a @ us \<and> rest = us @ x # post) \<or> (\<exists>us. a = pre @ x # us \<and> post = us @ rest)"
proof (induction pre arbitrary: a)
  case Nil
  then show ?case by (cases a) auto
next
  case (Cons p pre)
  show ?case
  proof (cases a)
    case Nil
    with Cons.prems show ?thesis by simp
  next
    case (Cons q a')
    with Cons.prems have "p = q" "pre @ x # post = a' @ rest" by simp_all
    from Cons.IH [OF this(2)] \<open>p = q\<close> Cons show ?thesis by auto
  qed
qed

lemma run_loop_stopped:
  "should_stop c \<Longrightarrow> run_loop fuel W cls cur c [] = Some (tr, res) \<Longrightarrow>
   res = Inr c \<and> (tr = [] \<or> tr = [Stopping])"
  by (cases fuel; cases cur) auto

lemma run_loop_unfold:
  assumes "run_loop fuel W cls cur c [] = Some (tr, res)"
  shows "(cur = None \<and> tr = [] \<and> res = Inr c)
       \<or> (\<exists>n. cur = Some n \<and> should_stop c \<and> tr = [Stopping] \<and> res = Inr c)
       \<or> (\<exists>n a err c'. cur = Some n \<and> \<not> should_stop c
             \<and> run_step W cls n c = (a, Inl (err, c')) \<and> tr = a \<and> res = Inl (err, c'))
       \<or> (\<exists>n a c1 nxt k rest. cur = Some n \<and> \<not> should_stop c \<and> fuel = Suc k
             \<and> run_step W cls n c = (a, Inr (c1, nxt))
             \<and> run_loop k W cls nxt c1 [] = Some (rest, res) \<and> tr = a @ rest)"
proof (cases fuel)
  case 0
  with assms show ?thesis by simp
next
  case (Suc k)
  show ?thesis
  proof (cases cur)
    case None
    with assms Suc show ?thesis by simp
  next
    case (Some n)
    show ?thesis
    proof (cases "should_stop c")
      case True
      with assms Suc Some show ?thesis by simp
    next
      case False
      obtain a r where st: "run_step W cls n c = (a, r)" by (cases "run_step W cls n c")
      show ?thesis
      proof (cases r)
        case (Inl p)
        with assms Suc Some False st show ?thesis by (cases p) auto
      next
        case (Inr p)
        obtain c1 nxt where p: "p = (c1, nxt)" by (cases p)
        from assms Suc Some False st Inr p
        have "run_loop k W cls nxt c1 a = Some (tr, res)" by simp
        then obtain rest where "run_loop k W cls nxt c1 [] = Some (rest, res)" "tr = a @ rest"
          by (subst (asm) run_loop_acc) auto
        with Suc Some False st Inr p show ?thesis by simp
      qed
    qed
  qed
qed

lemma run_loop_cases:
  assumes run: "run_loop fuel W cls cur c [] = Some (tr, res)"
    and mem: "Process m c0 \<in> set tr"
  obtains (raised) n a err c2 where "cur = Some n" "run_step W cls n c = (a, Inl (err, c2))"
        "tr = a" "res = Inl (err, c2)"
    | (step) n a c1 nxt k rest where "cur = Some n" "fuel = Suc k"
        "run_step W cls n c = (a, Inr (c1, nxt))"
        "run_loop k W cls nxt c1 [] = Some (rest, res)" "tr = a @ rest"
proof -
  from run_loop_unfold [OF run]
  consider "tr = []" | "tr = [Stopping]"
    | n a err c' where "cur = Some n" "run_step W cls n c = (a, Inl (err, c'))"
        "tr = a" "res = Inl (err, c')"
    | n a c1 nxt k rest where "cur = Some n" "fuel = Suc k"
        "run_step W cls n c = (a, Inr (c1, nxt))"
        "run_loop k W cls nxt c1 [] = Some (rest, res)" "tr = a @ rest"
    by blast
  then show thesis
  proof cases
    case 1
    with mem show ?thesis by simp
  next
    case 2
    with mem show ?thesis by simp
  next
    case 3
    then show ?thesis by (rule raised)
  next
    case 4
    then show ?thesis by (rule step)
  qed
qed

lemma run_loop_after_stop:
  assumes "run_loop fuel W cls cur c [] = Some (tr, res)"
    and "tr = pre @ Process m c0 # post"
    and "process (cls m) c0 = Inr c'" and "should_stop c'"
  shows "visited post = [] \<and> (\<forall>k d. Process k d \<notin> set post)
       \<and> (res = Inr c' \<or> (\<exists>err. res = Inl (err, c')))"
  using assms
proof (induction fuel arbitrary: cur c tr pre)
  case 0
  then show ?case by simp
next
  case (Suc fuel)
  have mem: "Process m c0 \<in> set tr" using Suc.prems(2) by simp
  from Suc.prems(1) mem show ?case
  proof (cases rule: run_loop_cases)
    case (raised n a err c2)
    from raised(3) Suc.prems(2) have a: "a = pre @ Process m c0 # post" by simp
    from run_step_after_process_returned [OF raised(2) a Suc.prems(3)]
    obtain a2 where post: "post = Finished n # a2" "a2 = [] \<or> (\<exists>k. a2 = [Route k c'])"
      and r: "(\<exists>err'. Inl (err, c2) = Inl (err', c')) \<or> (\<exists>nxt. Inl (err, c2) = Inr (c', nxt))"
      by blast
    from r have "c2 = c'" by simp
    with raised(4) have "res = Inl (err, c')" by simp
    moreover from post have "visited post = []" "\<forall>k d. Process k d \<notin> set post" by auto
    ultimately show ?thesis by simp
  next
    case (step n a c1 nxt k rest)
    from step(2) have k: "k = fuel" by simp
    from Suc.prems(2) step(5) have "pre @ Process m c0 # post = a @ rest" by simp
    from append_eq_append_mid [OF this]
    consider
        (later) us where "pre = a @ us" "rest = us @ Process m c0 # post"
      | (here) us where "a = pre @ Process m c0 # us" "post = us @ rest"
      by blast
    then show ?thesis
    proof cases
      case later
      from step(4) k have "run_loop fuel W cls nxt c1 [] = Some (rest, res)" by simp
      from Suc.IH [OF this later(2) Suc.prems(3,4)] show ?thesis .
    next
      case here
      from run_step_after_process_returned [OF step(3) here(1) Suc.prems(3)]
      obtain a2 where us: "us = Finished n # a2" "a2 = [] \<or> (\<exists>k. a2 = [Route k c'])"
        and r: "(\<exists>err'. Inr (c1, nxt) = Inl (err', c')) \<or> (\<exists>nxt'. Inr (c1, nxt) = Inr (c', nxt'))"
        by blast
      from r have c1: "c1 = c'" by simp
      from Suc.prems(4) c1 have "should_stop c1" by simp
      from run_loop_stopped [OF this step(4)] c1
      have "res = Inr c'" "rest = [] \<or> rest = [Stopping]" by simp_all
      moreover from us this(2) here(2)
      have "visited post = []" "\<forall>k d. Process k d \<notin> set post" by auto
      ultimately show ?thesis by simp
    qed
  qed
qed


section \<open>Router dispatch\<close>

lemma run_unfold:
  assumes "run fuel W p cls raw = Some (tr, res)"
  shows "(\<exists>e. p raw = Inl e \<and> tr = [] \<and> res = Inl (Exn e, None))
       \<or> (\<exists>ev lres. p raw = Inr ev
            \<and> run_loop fuel W cls (Some (start (workflow_schema W)))
                 \<lparr>event = ev, tc_nodes = Map.empty,
                  metadata = [''nodes'' \<mapsto> NodesMap (wf_nodes W)], should_stop = False\<rparr> []
                = Some (tr, lres)
            \<and> res = (case lres of
                       Inl (err, c) \<Rightarrow> Inl (err, Some c)
                     | Inr c \<Rightarrow> (case metadata c ''nodes'' of
                                  None \<Rightarrow> Inl (KeyError, Some c)
                                | Some _ \<Rightarrow> Inr (c\<lparr>metadata := (metadata c)(''nodes'' := None)\<rparr>))))"
proof (cases "p raw")
  case (Inl e)
  with assms show ?thesis by (simp add: run_def)
next
  case (Inr ev)
  let ?c0 = "\<lparr>event = ev, tc_nodes = Map.empty,
              metadata = [''nodes'' \<mapsto> NodesMap (wf_nodes W)], should_stop = False\<rparr>"
  show ?thesis
  proof (cases "run_loop fuel W cls (Some (start (workflow_schema W))) ?c0 []")
    case None
    with assms Inr show ?thesis by (simp add: run_def)
  next
    case (Some q)
    obtain tr' lres where q: "q = (tr', lres)" by (cases q)
    show ?thesis
    proof (cases lres)
      case (Inl ec)
      obtain err c where "ec = (err, c)" by (cases ec)
      with assms Inr Some q Inl show ?thesis by (simp add: run_def)
    next
      case (Inr c)
      with assms \<open>p raw = Inr ev\<close> Some q show ?thesis
        by (cases "metadata c ''nodes''") (simp_all add: run_def)
    qed
  qed
qed






section \<open>Stop flag, exceptions and determinism of a run\<close>

lemma run_cases:
  assumes "run fuel W p cls raw = Some (tr, res)" and "tr \<noteq> []"
  obtains ev lres where "p raw = Inr ev"
    "run_loop fuel W cls (Some (start (workflow_schema W)))
                 \<lparr>event = ev, tc_nodes = Map.empty,
                  metadata = [''nodes'' \<mapsto> NodesMap (wf_nodes W)], should_stop = False\<rparr> []
                = Some (tr, lres)"
    "res = (case lres of
                       Inl (err, c) \<Rightarrow> Inl (err, Some c)
                     | Inr c \<Rightarrow> (case metadata c ''nodes'' of
                                  None \<Rightarrow> Inl (KeyError, Some c)
                                | Some _ \<Rightarrow> Inr (c\<lparr>metadata := (metadata c)(''nodes'' := None)\<rparr>)))"
proof -
  from run_unfold [OF assms(1)] show thesis
  proof (elim disjE exE conjE)
    fix e assume "tr = []"
    with assms(2) show thesis by simp
  next
    fix ev lres
    assume "p raw = Inr ev"
      "run_loop fuel W cls (Some (start (workflow_schema W)))
                 \<lparr>event = ev, tc_nodes = Map.empty,
                  metadata = [''nodes'' \<mapsto> NodesMap (wf_nodes W)], should_stop = False\<rparr> []
                = Some (tr, lres)"
      "res = (case lres of
                       Inl (err, c) \<Rightarrow> Inl (err, Some c)
                     | Inr c \<Rightarrow> (case metadata c ''nodes'' of
                                  None \<Rightarrow> Inl (KeyError, Some c)
                                | Some _ \<Rightarrow> Inr (c\<lparr>metadata := (metadata c)(''nodes'' := None)\<rparr>)))"
    then show thesis by (rule that)
  qed
qed

lemma run_loop_stop_local:
  assumes ns: "\<not> should_stop c" and cfg: "wf_nodes W n = Some cfg"
    and nb: "\<not> is_BaseRouter (cls (node cfg))"
    and pr: "process (cls (node cfg)) c = Inr c'" and stop: "should_stop c'"
  shows "\<exists>tail res. run_loop (Suc (Suc k)) W cls (Some n) c acts =
            Some (acts @ [Starting n, Process (node cfg) c, Finished n] @ tail, res)
         \<and> visited tail = [] \<and> (\<forall>m d. Process m d \<notin> set tail)
         \<and> (res = Inr c' \<or> (\<exists>err. res = Inl (err, c')))"
proof -
  obtain a2 r2 where g: "get_next_node_class W cls n c' = (a2, r2)"
    by (cases "get_next_node_class W cls n c'")
  from get_next_node_class_actions [OF g] have a2: "a2 = [] \<or> (\<exists>m. a2 = [Route m c'])" .
  then have a2v: "visited a2 = []" "\<forall>m d. Process m d \<notin> set a2"
    "visited (a2 @ [Stopping]) = []" "\<forall>m d. Process m d \<notin> set (a2 @ [Stopping])"
    by auto
  note st = run_step_returned [where cls=cls and cfg=cfg, OF cfg nb pr g]
  let ?A = "[Starting n, Process (node cfg) c, Finished n]"
  show ?thesis
  proof (cases r2)
    case (Inl err)
    with st ns have "run_loop (Suc (Suc k)) W cls (Some n) c acts =
        Some (acts @ ?A @ a2, Inl (err, c'))" by simp
    with a2v(1,2) show ?thesis by blast
  next
    case (Inr nxt)
    show ?thesis
    proof (cases nxt)
      case None
      with Inr st ns have "run_loop (Suc (Suc k)) W cls (Some n) c acts =
        Some (acts @ ?A @ a2, Inr c')" by simp
      with a2v(1,2) show ?thesis by blast
    next
      case (Some x)
      with Inr st ns stop have "run_loop (Suc (Suc k)) W cls (Some n) c acts =
        Some (acts @ ?A @ (a2 @ [Stopping]), Inr c')" by simp
      with a2v(3,4) show ?thesis by blast
    qed
  qed
qed

text \<open>
  Claim C3. First, from any state of the loop: when the current node is executed and
  its \<open>process\<close> returns a context with the stop flag set, the loop returns within two
  tests of its condition; after the end of that node nothing is started and no
  \<open>process\<close> is called, and the result carries exactly the context that \<open>process\<close>
  returned. Second, for a whole run: whenever a call of \<open>process\<close> in the run returns
  a context with the stop flag set, no node is started and no \<open>process\<close> is called
  after it, and the run ends with that context, the \<open>''nodes''\<close> entry popped when it
  returns (the context as it is when the choice of the next class or the pop raises).
\<close>

theorem stop_flag_ends_run:
  "(\<forall>k acts n c cfg c'.
      \<not> should_stop c \<and> wf_nodes W n = Some cfg \<and> \<not> is_BaseRouter (cls (node cfg))
      \<and> process (cls (node cfg)) c = Inr c' \<and> should_stop c' \<longrightarrow>
      (\<exists>tail res. run_loop (Suc (Suc k)) W cls (Some n) c acts =
            Some (acts @ [Starting n, Process (node cfg) c, Finished n] @ tail, res)
         \<and> visited tail = [] \<and> (\<forall>m d. Process m d \<notin> set tail)
         \<and> (res = Inr c' \<or> (\<exists>err. res = Inl (err, c')))))
   \<and> (\<forall>fuel raw pre m c0 post res c'.
        run fuel W event_schema cls raw = Some (pre @ Process m c0 # post, res)
        \<and> process (cls m) c0 = Inr c' \<and> should_stop c' \<longrightarrow>
        visited post = [] \<and> (\<forall>k d. Process k d \<notin> set post)
        \<and> (res = Inr (c'\<lparr>metadata := (metadata c')(''nodes'' := None)\<rparr>)
            \<or> (\<exists>err. res = Inl (err, Some c'))))"
proof (rule conjI; intro allI impI)
  fix k acts n c cfg c'
  assume "\<not> should_stop c \<and> wf_nodes W n = Some cfg \<and> \<not> is_BaseRouter (cls (node cfg))
      \<and> process (cls (node cfg)) c = Inr c' \<and> should_stop c'"
  then show "\<exists>tail res. run_loop (Suc (Suc k)) W cls (Some n) c acts =
            Some (acts @ [Starting n, Process (node cfg) c, Finished n] @ tail, res)
         \<and> visited tail = [] \<and> (\<forall>m d. Process m d \<notin> set tail)
         \<and> (res = Inr c' \<or> (\<exists>err. res = Inl (err, c')))"
    using run_loop_stop_local [of c W n cfg cls c' k acts] by simp
next
  fix fuel raw pre m c0 post res c'
  assume h: "run fuel W event_schema cls raw = Some (pre @ Process m c0 # post, res)
        \<and> process (cls m) c0 = Inr c' \<and> should_stop c'"
  then have h1: "run fuel W event_schema cls raw = Some (pre @ Process m c0 # post, res)"
    and h2: "process (cls m) c0 = Inr c'" and h3: "should_stop c'" by simp_all
  have ne: "pre @ Process m c0 # post \<noteq> []" by simp
  from h1 ne obtain ev lres where
    loop: "run_loop fuel W cls (Some (start (workflow_schema W)))
                 \<lparr>event = ev, tc_nodes = Map.empty,
                  metadata = [''nodes'' \<mapsto> NodesMap (wf_nodes W)], should_stop = False\<rparr> []
                = Some (pre @ Process m c0 # post, lres)"
    and res: "res = (case lres of
                       Inl (err, c) \<Rightarrow> Inl (err, Some c)
                     | Inr c \<Rightarrow> (case metadata c ''nodes'' of
                                  None \<Rightarrow> Inl (KeyError, Some c)
                                | Some _ \<Rightarrow> Inr (c\<lparr>metadata := (metadata c)(''nodes'' := None)\<rparr>)))"
    by (rule run_cases)
  from run_loop_after_stop [OF loop refl h2 h3]
  have post: "visited post = [] \<and> (\<forall>k d. Process k d \<notin> set post)"
    and lres: "lres = Inr c' \<or> (\<exists>err. lres = Inl (err, c'))" by simp_all
  from lres have "res = Inr (c'\<lparr>metadata := (metadata c')(''nodes'' := None)\<rparr>)
            \<or> (\<exists>err. res = Inl (err, Some c'))"
  proof
    assume "lres = Inr c'"
    with res show ?thesis by (cases "metadata c' ''nodes''") simp_all
  next
    assume "\<exists>err. lres = Inl (err, c')"
    then obtain err where "lres = Inl (err, c')" ..
    with res show ?thesis by simp
  qed
  with post show "visited post = [] \<and> (\<forall>k d. Process k d \<notin> set post)
        \<and> (res = Inr (c'\<lparr>metadata := (metadata c')(''nodes'' := None)\<rparr>)
            \<or> (\<exists>err. res = Inl (err, Some c')))" by simp
qed



section \<open>The transient metadata entry\<close>





section \<open>Runs of the routing scenario\<close>

lemma scenario_nodes:
  "wf_nodes scenario_workflow NodeA = Some \<lparr>node = NodeA, connections = [RouterR], is_router = False,
      description = None, concurrent_nodes = Some []\<rparr>"
  "wf_nodes scenario_workflow RouterR = Some \<lparr>node = RouterR, connections = [NodeB, NodeC], is_router = True,
      description = None, concurrent_nodes = Some []\<rparr>"
  "wf_nodes scenario_workflow NodeB = Some \<lparr>node = NodeB, connections = [], is_router = False,
      description = None, concurrent_nodes = Some []\<rparr>"
  "wf_nodes scenario_workflow NodeC = Some \<lparr>node = NodeC, connections = [], is_router = False,
      description = None, concurrent_nodes = Some []\<rparr>"
  by (simp_all add: scenario_workflow_def scenario_schema_def initialize_nodes_def
        NodeConfig_default_def)

lemma scenario_find:
  "find (\<lambda>nc. node nc = NodeA) (nodes (workflow_schema scenario_workflow)) =
     Some \<lparr>node = NodeA, connections = [RouterR], is_router = False,
      description = None, concurrent_nodes = Some []\<rparr>"
  "find (\<lambda>nc. node nc = RouterR) (nodes (workflow_schema scenario_workflow)) =
     Some \<lparr>node = RouterR, connections = [NodeB, NodeC], is_router = True,
      description = None, concurrent_nodes = Some []\<rparr>"
  "find (\<lambda>nc. node nc = NodeB) (nodes (workflow_schema scenario_workflow)) =
     Some \<lparr>node = NodeB, connections = [], is_router = False,
      description = None, concurrent_nodes = Some []\<rparr>"
  "find (\<lambda>nc. node nc = NodeC) (nodes (workflow_schema scenario_workflow)) =
     Some \<lparr>node = NodeC, connections = [], is_router = False,
      description = None, concurrent_nodes = Some []\<rparr>"
  by (simp_all add: scenario_workflow_def scenario_schema_def)

lemma scenario_start: "start (workflow_schema scenario_workflow) = NodeA"
  by (simp add: scenario_workflow_def scenario_schema_def)

lemmas scenario_eval =
  run_def run_step_def node_context_def get_next_node_class_def handle_router_def
  scenario_nodes scenario_find scenario_start scenario_classes_def task_def BaseRouter_def
  scenario_context_def update_node_def stop_workflow_def



lemma scenario_run_stop:
  "run 5 scenario_workflow Inr scenario_classes ''stop'' =
     Some ([Starting NodeA] @ Process NodeA (scenario_context ''stop'') # [Finished NodeA, Stopping],
           Inr ((stop_workflow (update_node (scenario_context ''stop'') ''A'' [''seen'' \<mapsto> True]))
                \<lparr>metadata := Map.empty\<rparr>))"
  by (simp add: scenario_eval eval_nat_numeral fun_eq_iff)






theorem stop_flag_ends_run_witness:
  "run 5 scenario_workflow Inr scenario_classes ''stop'' =
     Some ([Starting NodeA] @ Process NodeA (scenario_context ''stop'') # [Finished NodeA, Stopping],
           Inr ((stop_workflow (update_node (scenario_context ''stop'') ''A'' [''seen'' \<mapsto> True]))
                \<lparr>metadata := Map.empty\<rparr>))
   \<and> process (scenario_classes NodeA) (scenario_context ''stop'') =
       Inr (stop_workflow (update_node (scenario_context ''stop'') ''A'' [''seen'' \<mapsto> True]))
   \<and> should_stop (stop_workflow (update_node (scenario_context ''stop'') ''A'' [''seen'' \<mapsto> True]))
   \<and> visited [Finished NodeA, Stopping :: (scenario_node, (scenario_node, string, unit, bool) ctx, string) action] = []
   \<and> (\<exists>tail res. run_loop (Suc (Suc 0)) scenario_workflow scenario_classes (Some NodeA)
          (scenario_context ''stop'') [] =
            Some ([] @ [Starting NodeA, Process NodeA (scenario_context ''stop''), Finished NodeA] @ tail, res)
         \<and> visited tail = [])"
proof -
  let ?c = "scenario_context ''stop''"
  let ?c' = "stop_workflow (update_node ?c ''A'' [''seen'' \<mapsto> True])"
  let ?cfg = "\<lparr>node = NodeA, connections = [RouterR], is_router = False,
      description = None, concurrent_nodes = Some []\<rparr>"
  have pr: "process (scenario_classes NodeA) ?c = Inr ?c'"
    by (simp add: scenario_classes_def task_def scenario_context_def)
  have st: "should_stop ?c'" by (simp add: stop_workflow_def)
  have g: "run 5 scenario_workflow Inr scenario_classes ''stop'' =
     Some ([Starting NodeA] @ Process NodeA ?c # [Finished NodeA, Stopping],
           Inr (?c'\<lparr>metadata := Map.empty\<rparr>))
     \<and> process (scenario_classes NodeA) ?c = Inr ?c' \<and> should_stop ?c'"
    using scenario_run_stop pr st by simp
  have l: "\<not> should_stop ?c \<and> wf_nodes scenario_workflow NodeA = Some ?cfg
      \<and> \<not> is_BaseRouter (scenario_classes (node ?cfg))
      \<and> process (scenario_classes (node ?cfg)) ?c = Inr ?c' \<and> should_stop ?c'"
    using pr st by (simp add: scenario_nodes scenario_classes_def task_def scenario_context_def)
  note t = stop_flag_ends_run [of scenario_workflow scenario_classes Inr]
  from t [THEN conjunct2, rule_format, OF g]
  have "visited [Finished NodeA, Stopping :: (scenario_node, (scenario_node, string, unit, bool) ctx, string) action] = []"
    by simp
  moreover from t [THEN conjunct1, rule_format, OF l, of 0 "[]"]
  have "\<exists>tail res. run_loop (Suc (Suc 0)) scenario_workflow scenario_classes (Some NodeA) ?c [] =
            Some ([] @ [Starting NodeA, Process NodeA ?c, Finished NodeA] @ tail, res)
         \<and> visited tail = []"
    by auto
  ultimately show ?thesis using g by simp
qed





end
